theory Spec2Isabelle
  imports Main "HOL-Library.Word" "HOL-Library.Monad_Syntax"
begin

unbundle bit_operations_syntax

section \<open>Polynomial string hashing: the program\<close>

text \<open>
  A shallow embedding of \<^verbatim>\<open>StringHashing.cpp\<close>: the \<^verbatim>\<open>Hashing\<close> structure (prefix hashes of a
  string under two moduli, powers of the base and their modular inverses), its two
  substring-hash queries, and the hash functors \<^verbatim>\<open>custom_hash\<close>, \<^verbatim>\<open>pair_hash\<close> and
  \<^verbatim>\<open>vector_hash\<close>.
\<close>

subsection \<open>Machine integers\<close>

text \<open>
  Modelled from the spec: the type alias \<^verbatim>\<open>ll\<close> is not declared in the source file; it is the
  signed 64-bit integer (\<^verbatim>\<open>long long\<close>) of the template, and \<^verbatim>\<open>vl\<close>, \<^verbatim>\<open>vvl\<close> are vectors and
  vectors of vectors of it. An \<^verbatim>\<open>ll\<close> is modelled as an \<open>int\<close>, and every addition and
  multiplication the source performs on \<^verbatim>\<open>ll\<close> wraps to 64 bits in two's complement
  (\<open>ll_wrap\<close>). The operator \<^verbatim>\<open>%\<close> truncates towards zero: the remainder takes the sign of the
  dividend (\<open>ll_rem\<close>).
\<close>

type_synonym ll = int

definition ll_wrap :: "int \<Rightarrow> ll" where
  "ll_wrap x = signed_take_bit 63 x"

definition ll_add :: "ll \<Rightarrow> ll \<Rightarrow> ll" where
  "ll_add a b = ll_wrap (a + b)"

definition ll_mul :: "ll \<Rightarrow> ll \<Rightarrow> ll" where
  "ll_mul a b = ll_wrap (a * b)"

definition ll_rem :: "ll \<Rightarrow> ll \<Rightarrow> ll" where
  "ll_rem a m = sgn a * (\<bar>a\<bar> mod \<bar>m\<bar>)"

text \<open>
  A \<^verbatim>\<open>char\<close> read as an integer: \<^verbatim>\<open>char\<close> is signed on the usual targets, so the bytes from 128
  on are negative. For the letters \<^verbatim>\<open>'a'\<close> .. \<^verbatim>\<open>'z'\<close> the value is 97 .. 122 either way.
\<close>

definition char_val :: "char \<Rightarrow> int" where
  "char_val c = (let v = of_char c in if v < 128 then v else v - 256)"

subsection \<open>Loop macros\<close>

text \<open>
  Modelled from the spec: the loop macros \<^verbatim>\<open>rep\<close> and \<^verbatim>\<open>rrep\<close> are not defined in the source
  file. \<^verbatim>\<open>rep(i, a, b)\<close> runs \<open>i\<close> upwards over \<open>a, \<dots>, b - 1\<close> (the spec builds the powers
  for \<open>j = 1, \<dots>, n\<close> from \<^verbatim>\<open>rep(j, 1, n + 1)\<close>), and \<^verbatim>\<open>rrep(i, a, b)\<close> runs \<open>i\<close> downwards
  over \<open>b, \<dots>, a\<close> (the spec fills the inverse powers "for \<open>j\<close> from \<open>n - 1\<close> down to \<open>0\<close>"
  from \<^verbatim>\<open>rrep(j, 0, n - 1)\<close>). Each is the list of the values the loop variable takes, in
  order; the loop is a \<open>fold\<close> of its body over that list.
\<close>

definition rep :: "ll \<Rightarrow> ll \<Rightarrow> ll list" where
  "rep a b = [a..b - 1]"

definition rrep :: "ll \<Rightarrow> ll \<Rightarrow> ll list" where
  "rrep a b = rev [a..b]"

subsection \<open>Modular arithmetic primitives\<close>

text \<open>
  Modelled from the spec: \<^verbatim>\<open>mulMod\<close>, \<^verbatim>\<open>subMod\<close> and \<^verbatim>\<open>mminvprime\<close> are called by the source
  file but defined elsewhere in the template. The spec (Modular Arithmetic Primitives) gives
  their contracts: \<^verbatim>\<open>mulMod(a, b, m)\<close> returns \<open>(a * b) mod m\<close> without intermediate
  overflow, \<^verbatim>\<open>subMod(a, b, m)\<close> returns \<open>(a - b) mod m\<close> normalised into \<open>[0, m)\<close> even when
  \<open>a < b\<close>, and the modular inverse under a prime is \<open>a ^ (m - 2) mod m\<close> computed by fast
  exponentiation (\<open>fastExp\<close>, squaring the base and halving the exponent).
\<close>

definition mulMod :: "ll \<Rightarrow> ll \<Rightarrow> ll \<Rightarrow> ll" where
  "mulMod a b m = (a * b) mod m"

definition subMod :: "ll \<Rightarrow> ll \<Rightarrow> ll \<Rightarrow> ll" where
  "subMod a b m = (a - b) mod m"

function fastExp :: "ll \<Rightarrow> ll \<Rightarrow> ll \<Rightarrow> ll" where
  "fastExp a e m =
     (if e \<le> 0 then 1
      else let h = fastExp (mulMod a a m) (e div 2) m
           in if e mod 2 = 1 then mulMod a h m else h)"
  by pat_completeness auto
termination
  by (relation "measure (\<lambda>(a, e, m). nat e)") auto

declare fastExp.simps [simp del]

definition mminvprime :: "ll \<Rightarrow> ll \<Rightarrow> ll" where
  "mminvprime a m = fastExp a (m - 2) m"

subsection \<open>The \<^verbatim>\<open>Hashing\<close> structure and its constructor\<close>

record Hashing =
  str :: string
  n :: ll
  base :: ll
  hashPrimes :: "ll list"
  hashValues :: "ll list list"
  powersOfBase :: "ll list list"
  inversePowersOfBase :: "ll list list"

text \<open>
  \<^verbatim>\<open>v.resize(k)\<close> keeps the first \<open>k\<close> elements and pads with value-initialised ones.
  \<open>get2\<close> and \<open>set2\<close> read and write \<^verbatim>\<open>t[i][j]\<close>.
\<close>

definition resize :: "nat \<Rightarrow> 'a \<Rightarrow> 'a list \<Rightarrow> 'a list" where
  "resize k d xs = take k xs @ replicate (k - length xs) d"

definition set2 :: "'a list list \<Rightarrow> ll \<Rightarrow> ll \<Rightarrow> 'a \<Rightarrow> 'a list list" where
  "set2 t i j v = t[nat i := (t ! nat i)[nat j := v]]"

definition get2 :: "'a list list \<Rightarrow> ll \<Rightarrow> ll \<Rightarrow> 'a" where
  "get2 t i j = t ! nat i ! nat j"

text \<open>The default member initialisers: base 31 and the two moduli.\<close>

definition Hashing_members :: Hashing where
  "Hashing_members =
     \<lparr> str = [], n = 0, base = 31, hashPrimes = [1000000009, 100000007],
       hashValues = [], powersOfBase = [], inversePowersOfBase = [] \<rparr>"

text \<open>
  The body of \<^verbatim>\<open>rep(j, 1, n + 1)\<close>:
  \<^verbatim>\<open>powersOfBase[i][j] = (base * powersOfBase[i][j - 1]) % hashPrimes[i]\<close>.
\<close>

definition powers_body :: "ll \<Rightarrow> ll \<Rightarrow> Hashing \<Rightarrow> Hashing" where
  "powers_body i j h =
     h\<lparr>powersOfBase := set2 (powersOfBase h) i j
          (ll_rem (ll_mul (base h) (get2 (powersOfBase h) i (j - 1))) (hashPrimes h ! nat i))\<rparr>"

text \<open>
  The body of \<^verbatim>\<open>rrep(j, 0, n - 1)\<close>:
  \<^verbatim>\<open>inversePowersOfBase[i][j] = mulMod(inversePowersOfBase[i][j + 1], base, hashPrimes[i])\<close>.
\<close>

definition inverse_body :: "ll \<Rightarrow> ll \<Rightarrow> Hashing \<Rightarrow> Hashing" where
  "inverse_body i j h =
     h\<lparr>inversePowersOfBase := set2 (inversePowersOfBase h) i j
          (mulMod (get2 (inversePowersOfBase h) i (j + 1)) (base h) (hashPrimes h ! nat i))\<rparr>"

text \<open>
  The body of the first \<^verbatim>\<open>rep(i, 0, primes)\<close>: both rows are resized to \<open>n + 1\<close>, the powers
  are filled upwards from \<open>1\<close>, the inverse of the last power is taken by \<^verbatim>\<open>mminvprime\<close>, and
  the inverse powers are filled downwards from it.
\<close>

definition precompute_body :: "ll \<Rightarrow> Hashing \<Rightarrow> Hashing" where
  "precompute_body i h0 =
     (let h1 = h0\<lparr>powersOfBase := (powersOfBase h0)[nat i := resize (nat (n h0 + 1)) 0 (powersOfBase h0 ! nat i)]\<rparr>;
          h2 = h1\<lparr>inversePowersOfBase := (inversePowersOfBase h1)[nat i := resize (nat (n h1 + 1)) 0 (inversePowersOfBase h1 ! nat i)]\<rparr>;
          h3 = h2\<lparr>powersOfBase := set2 (powersOfBase h2) i 0 1\<rparr>;
          h4 = fold (powers_body i) (rep 1 (n h3 + 1)) h3;
          h5 = h4\<lparr>inversePowersOfBase := set2 (inversePowersOfBase h4) i (n h4)
                  (mminvprime (get2 (powersOfBase h4) i (n h4)) (hashPrimes h4 ! nat i))\<rparr>
      in fold (inverse_body i) (rrep 0 (n h5 - 1)) h5)"

text \<open>
  The body of \<^verbatim>\<open>rep(j, 0, n)\<close> in the second loop: the term of character \<open>j\<close>,
  \<^verbatim>\<open>((str[j] - 'a' + 1LL) * powersOfBase[i][j]) % hashPrimes[i]\<close>, then the prefix sum
  \<^verbatim>\<open>(hashValues[i][j] + (j > 0 ? hashValues[i][j - 1] : 0LL)) % hashPrimes[i]\<close>.
\<close>

definition prefix_body :: "ll \<Rightarrow> ll \<Rightarrow> Hashing \<Rightarrow> Hashing" where
  "prefix_body i j h0 =
     (let h1 = h0\<lparr>hashValues := set2 (hashValues h0) i j
                  (ll_rem (ll_mul (ll_add (char_val (str h0 ! nat j) - char_val CHR ''a'') 1)
                                  (get2 (powersOfBase h0) i j))
                          (hashPrimes h0 ! nat i))\<rparr>
      in h1\<lparr>hashValues := set2 (hashValues h1) i j
              (ll_rem (ll_add (get2 (hashValues h1) i j)
                              (if j > 0 then get2 (hashValues h1) i (j - 1) else 0))
                      (hashPrimes h1 ! nat i))\<rparr>)"

text \<open>The body of the second \<^verbatim>\<open>rep(i, 0, primes)\<close>.\<close>

definition prefix_row :: "ll \<Rightarrow> Hashing \<Rightarrow> Hashing" where
  "prefix_row i h0 =
     (let h1 = h0\<lparr>hashValues := (hashValues h0)[nat i := resize (nat (n h0)) 0 (hashValues h0 ! nat i)]\<rparr>
      in fold (prefix_body i) (rep 0 (n h1)) h1)"

text \<open>The constructor \<^verbatim>\<open>Hashing(string a)\<close>.\<close>

definition Hashing_ctor :: "string \<Rightarrow> Hashing" where
  "Hashing_ctor a =
     (let h0 = Hashing_members\<lparr>str := a\<rparr>;
          h1 = h0\<lparr>n := int (length (str h0))\<rparr>;
          primes = int (length (hashPrimes h1));
          h2 = h1\<lparr>hashValues := resize (nat primes) [] (hashValues h1)\<rparr>;
          h3 = h2\<lparr>powersOfBase := resize (nat primes) [] (powersOfBase h2)\<rparr>;
          h4 = h3\<lparr>inversePowersOfBase := resize (nat primes) [] (inversePowersOfBase h3)\<rparr>;
          h5 = fold precompute_body (rep 0 primes) h4
      in fold prefix_row (rep 0 primes) h5)"

subsection \<open>Substring-hash queries\<close>

text \<open>
  The queries index the tables with the caller's \<open>l\<close> and \<open>r\<close>, unchecked. An index outside
  the vector is undefined behaviour in the source; the model reads through \<open>at\<close> and
  returns \<open>None\<close> there. A query returns its value together with the structure it leaves
  behind (neither member function is declared \<^verbatim>\<open>const\<close>).
\<close>

definition at :: "'a list \<Rightarrow> ll \<Rightarrow> 'a option" where
  "at xs i = (if 0 \<le> i \<and> i < int (length xs) then Some (xs ! nat i) else None)"

text \<open>The body of the loop of \<^verbatim>\<open>substringHashVec\<close>, for modulus index \<open>i\<close>.\<close>

definition vec_body :: "Hashing \<Rightarrow> ll \<Rightarrow> ll \<Rightarrow> ll \<Rightarrow> ll list option \<Rightarrow> ll list option" where
  "vec_body h l r i acc = do {
     hash \<leftarrow> acc;
     hv \<leftarrow> at (hashValues h) i;
     val1 \<leftarrow> at hv r;
     val2 \<leftarrow> (if l > 0 then at hv (l - 1) else Some 0);
     p \<leftarrow> at (hashPrimes h) i;
     ipw \<leftarrow> at (inversePowersOfBase h) i;
     inv \<leftarrow> at ipw l;
     _ \<leftarrow> at hash i;
     Some (hash[nat i := mulMod (subMod val1 val2 p) inv p])
   }"

definition substringHashVec :: "Hashing \<Rightarrow> ll \<Rightarrow> ll \<Rightarrow> (ll list \<times> Hashing) option" where
  "substringHashVec h l r = do {
     hash \<leftarrow> fold (vec_body h l r) (rep 0 (int (length (hashPrimes h))))
               (Some (replicate (length (hashPrimes h)) 0));
     Some (hash, h)
   }"

text \<open>\<^verbatim>\<open>substringHashPair\<close>: the same computation written out for indices 0 and 1.\<close>

definition substringHashPair :: "Hashing \<Rightarrow> ll \<Rightarrow> ll \<Rightarrow> ((ll \<times> ll) \<times> Hashing) option" where
  "substringHashPair h l r = do {
     hv0 \<leftarrow> at (hashValues h) 0;
     val1 \<leftarrow> at hv0 r;
     val2 \<leftarrow> (if l > 0 then at hv0 (l - 1) else Some 0);
     p0 \<leftarrow> at (hashPrimes h) 0;
     ipw0 \<leftarrow> at (inversePowersOfBase h) 0;
     inv0 \<leftarrow> at ipw0 l;
     h1 \<leftarrow> Some (mulMod (subMod val1 val2 p0) inv0 p0);
     hv1 \<leftarrow> at (hashValues h) 1;
     val1 \<leftarrow> at hv1 r;
     val2 \<leftarrow> (if l > 0 then at hv1 (l - 1) else Some 0);
     p1 \<leftarrow> at (hashPrimes h) 1;
     ipw1 \<leftarrow> at (inversePowersOfBase h) 1;
     inv1 \<leftarrow> at ipw1 l;
     h2 \<leftarrow> Some (mulMod (subMod val1 val2 p1) inv1 p1);
     Some ((h1, h2), h)
   }"

subsection \<open>Hash functors for unordered containers\<close>

text \<open>
  \<^verbatim>\<open>uint64_t\<close> and \<^verbatim>\<open>size_t\<close> are 64-bit words. The seed \<^verbatim>\<open>FIXED_RANDOM\<close> is a function-local
  static initialised once from the clock; it is a parameter of the model. The casts
  \<^verbatim>\<open>(uint64_t)p.first\<close> and \<^verbatim>\<open>(uint64_t)it\<close> keep the 64-bit pattern of an \<^verbatim>\<open>ll\<close>, so keys are
  given as words.
\<close>

type_synonym u64 = "64 word"

definition splitmix64 :: "u64 \<Rightarrow> u64" where
  "splitmix64 x0 =
     (let x1 = x0 + 0x9e3779b97f4a7c15;
          x2 = (x1 XOR drop_bit 30 x1) * 0xbf58476d1ce4e5b9;
          x3 = (x2 XOR drop_bit 27 x2) * 0x94d049bb133111eb
      in x3 XOR drop_bit 31 x3)"

definition custom_hash :: "u64 \<Rightarrow> u64 \<Rightarrow> u64" where
  "custom_hash FIXED_RANDOM x = splitmix64 (x + FIXED_RANDOM)"

definition pair_hash :: "u64 \<Rightarrow> u64 \<times> u64 \<Rightarrow> u64" where
  "pair_hash FIXED_RANDOM p =
     (let h1 = custom_hash FIXED_RANDOM (fst p);
          h2 = custom_hash FIXED_RANDOM (snd p)
      in h1 XOR push_bit 1 h2)"

text \<open>The range-based loop of \<^verbatim>\<open>vector_hash\<close>, with the accumulator \<open>h\<close>.\<close>

fun vector_hash_loop :: "u64 \<Rightarrow> u64 list \<Rightarrow> u64 \<Rightarrow> u64" where
  "vector_hash_loop FIXED_RANDOM [] h = h"
| "vector_hash_loop FIXED_RANDOM (it # v) h =
     vector_hash_loop FIXED_RANDOM v
       (h XOR (custom_hash FIXED_RANDOM it + 0x9e3779b9 + push_bit 6 h + drop_bit 2 h))"

definition vector_hash :: "u64 \<Rightarrow> u64 list \<Rightarrow> u64" where
  "vector_hash FIXED_RANDOM v = vector_hash_loop FIXED_RANDOM v 0"

subsection \<open>Specification functions\<close>

text \<open>
  A modulus is good for base 31 when it is above 1, small enough for the 64-bit products of
  the constructor, and passes Fermat's test for 31. The test runs by fast exponentiation.
\<close>

definition good_modulus :: "ll \<Rightarrow> bool" where
  "good_modulus p \<longleftrightarrow> 1 < p \<and> p < 2 ^ 32 \<and> fastExp 31 (p - 1) p = 1"

text \<open>
  The three inner loops of the constructor only touch row \<open>i\<close> of one table. Their bodies,
  as functions of that row:
\<close>

definition powers_step :: "ll \<Rightarrow> ll \<Rightarrow> nat \<Rightarrow> ll list \<Rightarrow> ll list" where
  "powers_step b p j row = row[j := ll_rem (ll_mul b (row ! (j - 1))) p]"

definition inverse_step :: "ll \<Rightarrow> ll \<Rightarrow> nat \<Rightarrow> ll list \<Rightarrow> ll list" where
  "inverse_step b p j row = row[j := mulMod (row ! (j + 1)) b p]"

definition prefix_step :: "string \<Rightarrow> ll \<Rightarrow> ll list \<Rightarrow> nat \<Rightarrow> ll list \<Rightarrow> ll list" where
  "prefix_step s p pw j row =
     (let row1 = row[j := ll_rem (ll_mul (ll_add (char_val (s ! j) - char_val CHR ''a'') 1) (pw ! j)) p]
      in row1[j := ll_rem (ll_add (row1 ! j) (if j > 0 then row1 ! (j - 1) else 0)) p])"

text \<open>The rows the constructor leaves in the three tables, for modulus \<open>p\<close>.\<close>

definition powers_row :: "ll \<Rightarrow> nat \<Rightarrow> ll list" where
  "powers_row p len = fold (powers_step 31 p) [1..<Suc len] ((replicate (Suc len) 0)[0 := 1])"

definition inverse_row :: "ll \<Rightarrow> nat \<Rightarrow> ll list" where
  "inverse_row p len =
     fold (inverse_step 31 p) (rev [0..<len])
       ((replicate (Suc len) 0)[len := mminvprime (powers_row p len ! len) p])"

definition prefix_hash_row :: "string \<Rightarrow> ll \<Rightarrow> ll list" where
  "prefix_hash_row s p =
     fold (prefix_step s p (powers_row p (length s))) [0..<length s] (replicate (length s) 0)"

text \<open>
  The code of a character, \<^verbatim>\<open>str[j] - 'a' + 1\<close>, and the polynomial hash of a string with the
  first character at weight \<open>31 ^ 0\<close>, before reduction.
\<close>

definition char_code :: "char \<Rightarrow> ll" where
  "char_code c = char_val c - 96"

primrec poly :: "string \<Rightarrow> int" where
  "poly [] = 0"
| "poly (c # cs) = char_code c + 31 * poly cs"

text \<open>The lowercase letters \<^verbatim>\<open>'a'\<close> .. \<^verbatim>\<open>'z'\<close>, bytes 97 .. 122.\<close>

definition is_lower :: "char \<Rightarrow> bool" where
  "is_lower c \<longleftrightarrow> 97 \<le> (of_char c :: nat) \<and> (of_char c :: nat) \<le> 122"

definition in_range :: "ll \<Rightarrow> ll \<Rightarrow> bool" where
  "in_range x m \<longleftrightarrow> 0 \<le> x \<and> x < m"

text \<open>The substring \<^verbatim>\<open>text[l..r]\<close>, bounds inclusive.\<close>

definition substr :: "string \<Rightarrow> ll \<Rightarrow> ll \<Rightarrow> string" where
  "substr a l r = take (nat (r - l + 1)) (drop (nat l) a)"

text \<open>
  What either query computes for one modulus, read off the rows of the constructed tables.
\<close>

definition query_val :: "string \<Rightarrow> ll \<Rightarrow> ll \<Rightarrow> ll \<Rightarrow> ll" where
  "query_val a p l r =
     mulMod (subMod (prefix_hash_row a p ! nat r)
                    (if l > 0 then prefix_hash_row a p ! nat (l - 1) else 0) p)
            (inverse_row p (length a) ! nat l) p"

section \<open>Arithmetic\<close>

lemma ll_wrap_id: "- (2 ^ 63) \<le> x \<Longrightarrow> x < 2 ^ 63 \<Longrightarrow> ll_wrap x = x"
  unfolding ll_wrap_def by (rule signed_take_bit_int_eq_self)

lemma ll_rem_nonneg: "0 \<le> a \<Longrightarrow> 0 < m \<Longrightarrow> ll_rem a m = a mod m"
  by (cases "a = 0") (simp_all add: ll_rem_def)

lemma fastExp_correct: "0 \<le> e \<Longrightarrow> 1 < m \<Longrightarrow> fastExp a e m = a ^ nat e mod m"
proof (induction a e m rule: fastExp.induct)
  case (1 a e m)
  show ?case
  proof (cases "e \<le> 0")
    case True
    with "1.prems" have "e = 0" by simp
    with "1.prems" show ?thesis by (simp add: fastExp.simps)
  next
    case False
    then have pos: "0 < e" by simp
    have ih: "fastExp (mulMod a a m) (e div 2) m = (a * a) ^ nat (e div 2) mod m"
      using "1.IH" [OF False] "1.prems" pos by (simp add: mulMod_def power_mod)
    have sq: "(a * a) ^ nat (e div 2) = a ^ (2 * nat (e div 2))"
      by (simp add: power_mult power2_eq_square)
    show ?thesis
    proof (cases "e mod 2 = 1")
      case True
      have "e = 2 * (e div 2) + 1" "0 \<le> e div 2"
        using pos True by presburger+
      then have "nat e = Suc (2 * nat (e div 2))"
        by linarith
      then have "a ^ nat e mod m = (a * a ^ (2 * nat (e div 2))) mod m"
        by simp
      also have "\<dots> = (a * (a ^ (2 * nat (e div 2)) mod m)) mod m"
        by (simp add: mod_mult_right_eq)
      finally show ?thesis
        using False True ih sq by (simp add: fastExp.simps [of a e m] mulMod_def Let_def)
    next
      case odd: False
      have "e = 2 * (e div 2)" "0 \<le> e div 2"
        using pos odd by presburger+
      then have "nat e = 2 * nat (e div 2)"
        by linarith
      then show ?thesis
        using False odd ih sq by (simp add: fastExp.simps [of a e m] Let_def)
    qed
  qed
qed

lemma upto_as_upt: "[int a..int b - 1] = map int [a..<b]"
proof (induction b)
  case 0
  then show ?case by simp
next
  case (Suc b)
  show ?case
  proof (cases "a \<le> b")
    case True
    then have "[int a..int (Suc b) - 1] = [int a..int b - 1] @ [int b]"
      using upto_rec2 [of "int a" "int b"] by simp
    with Suc True show ?thesis by simp
  next
    case False
    then show ?thesis by simp
  qed
qed

lemma rep_0: "rep 0 (int k) = map int [0..<k]"
  using upto_as_upt [of 0 k] by (simp add: rep_def)

lemma rep_1: "rep 1 (int k + 1) = map int [1..<Suc k]"
  using upto_as_upt [of 1 "Suc k"] by (simp add: rep_def)

lemma rrep_0: "rrep 0 (int k - 1) = map int (rev [0..<k])"
  using upto_as_upt [of 0 k] by (simp add: rrep_def rev_map)

lemma good_P1: "good_modulus 1000000009"
  unfolding good_modulus_def by code_simp

lemma good_P2: "good_modulus 100000007"
  unfolding good_modulus_def by code_simp

lemma good_modulus_fermat: "good_modulus p \<Longrightarrow> 31 ^ nat (p - 1) mod p = 1"
  unfolding good_modulus_def using fastExp_correct [of "p - 1" p 31] by simp

section \<open>The constructor, row by row\<close>

lemma fold_powers_body:
  "nat i < length (powersOfBase h) \<Longrightarrow>
   fold (powers_body i) (map int js) h =
   h\<lparr>powersOfBase := (powersOfBase h)
        [nat i := fold (powers_step (base h) (hashPrimes h ! nat i)) js (powersOfBase h ! nat i)]\<rparr>"
proof (induction js arbitrary: h)
  case Nil
  then show ?case by simp
next
  case (Cons j js)
  have step: "powers_body i (int j) h =
      h\<lparr>powersOfBase := (powersOfBase h)
        [nat i := powers_step (base h) (hashPrimes h ! nat i) j (powersOfBase h ! nat i)]\<rparr>"
    by (simp add: powers_body_def powers_step_def set2_def get2_def nat_diff_distrib')
  show ?case
    using Cons.prems by (simp add: step Cons.IH)
qed

lemma fold_inverse_body:
  "nat i < length (inversePowersOfBase h) \<Longrightarrow>
   fold (inverse_body i) (map int js) h =
   h\<lparr>inversePowersOfBase := (inversePowersOfBase h)
        [nat i := fold (inverse_step (base h) (hashPrimes h ! nat i)) js (inversePowersOfBase h ! nat i)]\<rparr>"
proof (induction js arbitrary: h)
  case Nil
  then show ?case by simp
next
  case (Cons j js)
  have step: "inverse_body i (int j) h =
      h\<lparr>inversePowersOfBase := (inversePowersOfBase h)
        [nat i := inverse_step (base h) (hashPrimes h ! nat i) j (inversePowersOfBase h ! nat i)]\<rparr>"
    by (simp add: inverse_body_def inverse_step_def set2_def get2_def nat_add_distrib)
  show ?case
    using Cons.prems by (simp add: step Cons.IH)
qed

lemma fold_prefix_body:
  "nat i < length (hashValues h) \<Longrightarrow>
   fold (prefix_body i) (map int js) h =
   h\<lparr>hashValues := (hashValues h)
        [nat i := fold (prefix_step (str h) (hashPrimes h ! nat i) (powersOfBase h ! nat i)) js
                    (hashValues h ! nat i)]\<rparr>"
proof (induction js arbitrary: h)
  case Nil
  then show ?case by simp
next
  case (Cons j js)
  have step: "prefix_body i (int j) h =
      h\<lparr>hashValues := (hashValues h)
        [nat i := prefix_step (str h) (hashPrimes h ! nat i) (powersOfBase h ! nat i) j
                    (hashValues h ! nat i)]\<rparr>"
    using Cons.prems
    by (simp add: prefix_body_def prefix_step_def set2_def get2_def Let_def nat_diff_distrib')
  show ?case
    using Cons.prems by (simp add: step Cons.IH)
qed

lemma rep_0_2: "rep 0 2 = [0, 1]"
  using rep_0 [of 2] by (simp add: upt_rec)

lemma nat_int_Suc: "nat (int len + 1) = Suc len"
  by simp

lemma precompute_body_eq:
  assumes "nat i < length (powersOfBase h)" "nat i < length (inversePowersOfBase h)"
    and "powersOfBase h ! nat i = []" "inversePowersOfBase h ! nat i = []"
    and "n h = int len" "base h = 31"
  shows "precompute_body i h =
    h\<lparr>powersOfBase := (powersOfBase h)[nat i := powers_row (hashPrimes h ! nat i) len],
      inversePowersOfBase := (inversePowersOfBase h)[nat i := inverse_row (hashPrimes h ! nat i) len]\<rparr>"
  using assms
  by (simp add: precompute_body_def Let_def rep_1 rrep_0 fold_powers_body fold_inverse_body
      resize_def set2_def get2_def powers_row_def inverse_row_def nat_int_Suc
      del: replicate.simps upt_Suc)

lemma prefix_row_eq:
  assumes "nat i < length (hashValues h)" "hashValues h ! nat i = []"
    and "n h = int (length (str h))"
    and "powersOfBase h ! nat i = powers_row (hashPrimes h ! nat i) (length (str h))"
  shows "prefix_row i h =
    h\<lparr>hashValues := (hashValues h)[nat i := prefix_hash_row (str h) (hashPrimes h ! nat i)]\<rparr>"
  using assms
  by (simp add: prefix_row_def Let_def rep_0 fold_prefix_body resize_def prefix_hash_row_def
      del: replicate.simps upt_Suc)

lemma Hashing_ctor_eq:
  "Hashing_ctor a =
     \<lparr> str = a, n = int (length a), base = 31, hashPrimes = [1000000009, 100000007],
       hashValues = [prefix_hash_row a 1000000009, prefix_hash_row a 100000007],
       powersOfBase = [powers_row 1000000009 (length a), powers_row 100000007 (length a)],
       inversePowersOfBase = [inverse_row 1000000009 (length a), inverse_row 100000007 (length a)] \<rparr>"
  by (simp add: Hashing_ctor_def Hashing_members_def Let_def rep_0_2 resize_def
      precompute_body_eq [where len = "length a"] prefix_row_eq)

section \<open>The contents of the tables\<close>

lemma poly_append: "poly (xs @ ys) = poly xs + 31 ^ length xs * poly ys"
  by (induction xs) (simp_all add: algebra_simps)

lemma of_char_int_bounds: "0 \<le> (of_char c :: int) \<and> (of_char c :: int) < 256"
proof -
  have e: "(of_char c :: int) = int (of_char c)"
    by (rule of_nat_of_char [symmetric])
  show ?thesis
    unfolding e using nat_of_char_less_256 [of c] by linarith
qed

lemma char_val_bounds: "- 128 \<le> char_val c \<and> char_val c < 128"
  using of_char_int_bounds [of c] by (simp add: char_val_def Let_def)

lemma char_code_eq: "ll_add (char_val c - char_val CHR ''a'') 1 = char_code c"
proof -
  have "char_val CHR ''a'' = 97" by (simp add: char_val_def)
  then show ?thesis
    using char_val_bounds [of c] by (simp add: ll_add_def char_code_def ll_wrap_id)
qed

lemma char_code_bounds: "- 224 \<le> char_code c \<and> char_code c < 32"
  using char_val_bounds [of c] by (simp add: char_code_def)

lemma length_fold_powers_step [simp]:
  "length (fold (powers_step b p) js row) = length row"
  by (induction js arbitrary: row) (simp_all add: powers_step_def)

lemma length_fold_inverse_step [simp]:
  "length (fold (inverse_step b p) js row) = length row"
  by (induction js arbitrary: row) (simp_all add: inverse_step_def)

lemma length_fold_prefix_step [simp]:
  "length (fold (prefix_step s p pw) js row) = length row"
  by (induction js arbitrary: row) (simp_all add: prefix_step_def Let_def)

lemma length_powers_row [simp]: "length (powers_row p len) = Suc len"
  by (simp add: powers_row_def del: replicate.simps upt_Suc)

lemma length_inverse_row [simp]: "length (inverse_row p len) = Suc len"
  by (simp add: inverse_row_def del: replicate.simps upt_Suc)

lemma length_prefix_hash_row [simp]: "length (prefix_hash_row s p) = length s"
  by (simp add: prefix_hash_row_def del: replicate.simps upt_Suc)

lemma powers_step_value:
  assumes "1 < p" "p < 2 ^ 32" "0 \<le> x" "x < p"
  shows "ll_rem (ll_mul 31 x) p = (31 * x) mod p"
proof -
  have "31 * x < 31 * 2 ^ 32" using assms by simp
  then have "ll_mul 31 x = 31 * x"
    using assms by (simp add: ll_mul_def ll_wrap_id)
  then show ?thesis using assms by (simp add: ll_rem_nonneg)
qed

lemma powers_fold_nth:
  assumes p: "1 < p" "p < 2 ^ 32"
  shows "k \<le> len \<Longrightarrow> j \<le> k \<Longrightarrow>
    fold (powers_step 31 p) [1..<Suc k] ((replicate (Suc len) 0)[0 := 1]) ! j = 31 ^ j mod p"
proof (induction k arbitrary: j)
  case 0
  then show ?case using p by simp
next
  case (Suc k)
  define row where "row = fold (powers_step 31 p) [1..<Suc k] ((replicate (Suc len) 0)[0 := 1])"
  have len_row: "length row = Suc len"
    by (simp add: row_def del: replicate.simps upt_Suc)
  have ih: "row ! i = 31 ^ i mod p" if "i \<le> k" for i
    using Suc.IH [of i] Suc.prems that by (simp add: row_def del: replicate.simps upt_Suc)
  have unfold: "fold (powers_step 31 p) [1..<Suc (Suc k)] ((replicate (Suc len) 0)[0 := 1])
      = row[Suc k := ll_rem (ll_mul 31 (row ! k)) p]"
    by (simp add: row_def powers_step_def del: replicate.simps)
  show ?case
  proof (cases "j = Suc k")
    case True
    have "ll_rem (ll_mul 31 (row ! k)) p = (31 * (31 ^ k mod p)) mod p"
      using p by (simp add: ih powers_step_value)
    also have "\<dots> = 31 ^ Suc k mod p"
      by (simp add: mod_mult_right_eq)
    finally show ?thesis
      using True Suc.prems len_row by (simp only: unfold) simp
  next
    case False
    then have "j \<le> k" using Suc.prems by simp
    then show ?thesis
      using False by (simp only: unfold) (simp add: ih)
  qed
qed

lemma powers_row_nth:
  "1 < p \<Longrightarrow> p < 2 ^ 32 \<Longrightarrow> j \<le> len \<Longrightarrow> powers_row p len ! j = 31 ^ j mod p"
  unfolding powers_row_def by (rule powers_fold_nth) simp_all

lemma inverse_fold_nth:
  assumes p: "1 < p" and x: "0 \<le> x" "x < p"
  shows "k \<le> len \<Longrightarrow> len - k \<le> j \<Longrightarrow> j \<le> len \<Longrightarrow>
    fold (inverse_step 31 p) (rev [len - k..<len]) ((replicate (Suc len) 0)[len := x]) ! j
      = (x * 31 ^ (len - j)) mod p"
proof (induction k arbitrary: j)
  case 0
  then have "j = len" by simp
  then show ?case using p x by (simp del: replicate.simps)
next
  case (Suc k)
  define row where
    "row = fold (inverse_step 31 p) (rev [len - k..<len]) ((replicate (Suc len) 0)[len := x])"
  have len_row: "length row = Suc len"
    by (simp add: row_def del: replicate.simps upt_Suc)
  have ih: "row ! i = (x * 31 ^ (len - i)) mod p" if "len - k \<le> i" "i \<le> len" for i
    using Suc.IH [of i] Suc.prems that by (simp add: row_def del: replicate.simps upt_Suc)
  have lt: "len - Suc k < len" using Suc.prems by simp
  have "[len - Suc k..<len] = (len - Suc k) # [len - k..<len]"
    using upt_conv_Cons [OF lt] Suc.prems by (simp add: Suc_diff_Suc)
  then have unfold: "fold (inverse_step 31 p) (rev [len - Suc k..<len]) ((replicate (Suc len) 0)[len := x])
      = row[len - Suc k := mulMod (row ! (len - k)) 31 p]"
    using Suc.prems by (simp add: row_def inverse_step_def Suc_diff_Suc del: replicate.simps)
  show ?case
  proof (cases "j = len - Suc k")
    case True
    have e: "len - j = Suc (len - (len - k))" using True Suc.prems by simp
    have "mulMod (row ! (len - k)) 31 p = ((x * 31 ^ (len - (len - k))) mod p * 31) mod p"
      by (simp add: ih mulMod_def)
    also have "\<dots> = (x * 31 ^ (len - j)) mod p"
      unfolding e by (simp add: mod_simps ac_simps)
    finally show ?thesis
      using True lt len_row by (simp only: unfold) simp
  next
    case False
    then have "len - k \<le> j" using Suc.prems by simp
    then show ?thesis
      using False Suc.prems by (simp only: unfold) (simp add: ih)
  qed
qed

lemma mminvprime_eq: "1 < p \<Longrightarrow> mminvprime a p = a ^ nat (p - 2) mod p"
  unfolding mminvprime_def by (rule fastExp_correct) simp_all

lemma inverse_row_nth:
  assumes "good_modulus p" "j \<le> len"
  shows "inverse_row p len ! j = (mminvprime (31 ^ len mod p) p * 31 ^ (len - j)) mod p"
proof -
  have p: "1 < p" "p < 2 ^ 32" using assms by (simp_all add: good_modulus_def)
  define x where "x = mminvprime (powers_row p len ! len) p"
  have x: "0 \<le> x" "x < p" using p by (simp_all add: x_def mminvprime_eq)
  have "fold (inverse_step 31 p) (rev [len - len..<len]) ((replicate (Suc len) 0)[len := x]) ! j
      = (x * 31 ^ (len - j)) mod p"
    using p(1) x by (rule inverse_fold_nth) (use assms in simp_all)
  then show ?thesis
    using p by (simp add: inverse_row_def x_def powers_row_nth del: replicate.simps)
qed

lemma fermat_inverse:
  assumes "good_modulus p"
  shows "(mminvprime (31 ^ len mod p) p * 31 ^ len) mod p = 1"
proof -
  have p: "1 < p" using assms by (simp add: good_modulus_def)
  define e where "e = nat (p - 2)"
  have e: "Suc e = nat (p - 1)" using p by (simp add: e_def)
  have f: "(31::int) ^ Suc e mod p = 1"
    unfolding e using assms by (rule good_modulus_fermat)
  have "(mminvprime (31 ^ len mod p) p * 31 ^ len) mod p = ((31 ^ len) ^ e * 31 ^ len) mod p"
    using p by (simp add: mminvprime_eq e_def mod_simps)
  also have "\<dots> = (31 ^ Suc e) ^ len mod p"
    by (simp add: power_mult [symmetric] power_add [symmetric] mult.commute)
  also have "\<dots> = (31 ^ Suc e mod p) ^ len mod p"
    by (simp only: power_mod)
  also have "\<dots> = 1"
    using p by (simp only: f) simp
  finally show ?thesis .
qed

lemma inverse_times_power:
  assumes "good_modulus p" "j \<le> len"
  shows "(inverse_row p len ! j * 31 ^ j) mod p = 1"
proof -
  have "(inverse_row p len ! j * 31 ^ j) mod p
      = (mminvprime (31 ^ len mod p) p * (31 ^ (len - j) * 31 ^ j)) mod p"
    using assms by (simp add: inverse_row_nth mod_simps mult.assoc)
  also have "31 ^ (len - j) * 31 ^ j = (31::int) ^ len"
    using assms(2) by (simp add: power_add [symmetric])
  finally show ?thesis
    using assms(1) by (simp add: fermat_inverse)
qed

lemma mod_lin: "((c::int) * (x mod p) + y mod p) mod p = (c * x + y) mod p"
proof -
  have "(c * (x mod p) + y mod p) mod p = ((c * (x mod p)) mod p + y mod p) mod p"
    by (simp only: mod_add_left_eq)
  also have "\<dots> = ((c * x) mod p + y mod p) mod p"
    by (simp only: mod_mult_right_eq)
  also have "\<dots> = (c * x + y) mod p"
    by (simp only: mod_add_eq)
  finally show ?thesis .
qed

lemma prefix_step_value:
  assumes "1 < p" "p < 2 ^ 32" "0 \<le> c" "c < 32" "0 \<le> x" "x < p" "0 \<le> prev" "prev < p"
  shows "ll_rem (ll_add (ll_rem (ll_mul c x) p) prev) p = (c * x + prev) mod p"
proof -
  have "c * x \<le> 31 * x" using assms by (intro mult_right_mono) simp_all
  then have hi: "c * x < 2 ^ 63" using assms by simp
  have lo: "0 \<le> c * x" using assms by simp
  have m: "ll_mul c x = c * x"
    using hi lo by (simp add: ll_mul_def ll_wrap_id)
  define t where "t = (c * x) mod p"
  have t: "0 \<le> t" "t < p" using assms by (simp_all add: t_def)
  have "ll_rem (ll_mul c x) p = t"
    using lo assms by (simp add: m ll_rem_nonneg t_def)
  moreover have "ll_add t prev = t + prev"
    using t assms by (simp add: ll_add_def ll_wrap_id)
  moreover have "ll_rem (t + prev) p = (t + prev) mod p"
    using t assms by (simp add: ll_rem_nonneg)
  ultimately show ?thesis by (simp add: t_def mod_simps)
qed

lemma prefix_fold_nth:
  assumes p: "1 < p" "p < 2 ^ 32"
    and pw: "\<And>i. i < length s \<Longrightarrow> pw ! i = 31 ^ i mod p"
    and codes: "\<And>c. c \<in> set s \<Longrightarrow> 0 \<le> char_code c"
  shows "k \<le> length s \<Longrightarrow> j < k \<Longrightarrow>
    fold (prefix_step s p pw) [0..<k] (replicate (length s) 0) ! j = poly (take (Suc j) s) mod p"
proof (induction k arbitrary: j)
  case 0
  then show ?case by simp
next
  case (Suc k)
  define row where "row = fold (prefix_step s p pw) [0..<k] (replicate (length s) 0)"
  have len_row: "length row = length s"
    by (simp add: row_def)
  have k: "k < length s" using Suc.prems by simp
  have ih: "row ! i = poly (take (Suc i) s) mod p" if "i < k" for i
    using Suc.IH [of i] k that by (simp add: row_def)
  define prev where "prev = (if k > 0 then row ! (k - 1) else 0)"
  have prev: "prev = poly (take k s) mod p"
    using ih [of "k - 1"] by (cases k) (simp_all add: prev_def)
  have unfold: "fold (prefix_step s p pw) [0..<Suc k] (replicate (length s) 0)
      = row[k := ll_rem (ll_add (ll_rem (ll_mul (char_code (s ! k)) (pw ! k)) p) prev) p]"
    using k len_row
    by (simp add: row_def [symmetric] prefix_step_def Let_def char_code_eq prev_def)
  show ?case
  proof (cases "j = k")
    case True
    have c: "0 \<le> char_code (s ! k)" "char_code (s ! k) < 32"
      using codes [of "s ! k"] k char_code_bounds [of "s ! k"] by simp_all
    have "ll_rem (ll_add (ll_rem (ll_mul (char_code (s ! k)) (pw ! k)) p) prev) p
        = (char_code (s ! k) * (31 ^ k mod p) + poly (take k s) mod p) mod p"
      using p c k by (simp add: prefix_step_value pw prev)
    also have "\<dots> = (char_code (s ! k) * 31 ^ k + poly (take k s)) mod p"
      by (rule mod_lin)
    also have "\<dots> = (poly (take k s) + 31 ^ k * char_code (s ! k)) mod p"
      by (simp add: ac_simps)
    also have "\<dots> = poly (take (Suc k) s) mod p"
      using k by (simp add: take_Suc_conv_app_nth poly_append)
    finally show ?thesis
      using True k len_row by (simp only: unfold) simp
  next
    case False
    then have "j < k" using Suc.prems by simp
    then show ?thesis
      using False by (simp only: unfold) (simp add: ih)
  qed
qed

lemma prefix_hash_row_nth:
  assumes "good_modulus p" "\<And>c. c \<in> set s \<Longrightarrow> 0 \<le> char_code c" "j < length s"
  shows "prefix_hash_row s p ! j = poly (take (Suc j) s) mod p"
proof -
  have p: "1 < p" "p < 2 ^ 32" using assms(1) by (simp_all add: good_modulus_def)
  have pw: "powers_row p (length s) ! i = 31 ^ i mod p" if "i < length s" for i
    using that by (intro powers_row_nth p) simp
  show ?thesis
    unfolding prefix_hash_row_def
    by (rule prefix_fold_nth [OF p pw assms(2) _ assms(3)]) simp_all
qed

section \<open>The queries on a constructed structure\<close>

lemma rows_ctor:
  "hashValues (Hashing_ctor a) = [prefix_hash_row a 1000000009, prefix_hash_row a 100000007]"
  "inversePowersOfBase (Hashing_ctor a) = [inverse_row 1000000009 (length a), inverse_row 100000007 (length a)]"
  "powersOfBase (Hashing_ctor a) = [powers_row 1000000009 (length a), powers_row 100000007 (length a)]"
  "hashPrimes (Hashing_ctor a) = [1000000009, 100000007]"
  "n (Hashing_ctor a) = int (length a)"
  "str (Hashing_ctor a) = a"
  "base (Hashing_ctor a) = 31"
  by (simp_all add: Hashing_ctor_eq)

lemma substringHashVec_ctor:
  assumes "0 \<le> l" "l \<le> r" "r < int (length a)"
  shows "substringHashVec (Hashing_ctor a) l r =
    Some ([query_val a 1000000009 l r, query_val a 100000007 l r], Hashing_ctor a)"
  using assms
  by (simp add: substringHashVec_def vec_body_def rows_ctor rep_0_2 at_def query_val_def)

lemma substringHashPair_ctor:
  assumes "0 \<le> l" "l \<le> r" "r < int (length a)"
  shows "substringHashPair (Hashing_ctor a) l r =
    Some ((query_val a 1000000009 l r, query_val a 100000007 l r), Hashing_ctor a)"
  using assms
  by (simp add: substringHashPair_def rows_ctor at_def query_val_def)

lemma query_val_poly:
  assumes g: "good_modulus p" and codes: "\<And>c. c \<in> set a \<Longrightarrow> 0 \<le> char_code c"
    and v: "0 \<le> l" "l \<le> r" "r < int (length a)"
  shows "query_val a p l r = poly (substr a l r) mod p"
proof -
  define i where "i = nat l"
  define j where "j = nat r"
  have ij: "i \<le> j" "j < length a" "l = int i" "r = int j"
    using v by (simp_all add: i_def j_def)
  have split: "take (Suc j) a = take i a @ substr a l r"
  proof -
    have "take (Suc j) a = take i (take (Suc j) a) @ drop i (take (Suc j) a)"
      by (simp only: append_take_drop_id)
    also have "take i (take (Suc j) a) = take i a"
      using ij by (simp add: min_def)
    also have "drop i (take (Suc j) a) = take (Suc j - i) (drop i a)"
      by (simp add: drop_take)
    also have "Suc j - i = nat (r - l + 1)"
      using ij by simp
    finally show ?thesis by (simp add: substr_def i_def)
  qed
  have li: "min (length a) i = i" using ij by simp
  have hr: "prefix_hash_row a p ! j = (poly (take i a) + 31 ^ i * poly (substr a l r)) mod p"
    using prefix_hash_row_nth [OF g codes ij(2)] by (simp add: split poly_append li)
  have hl: "(if l > 0 then prefix_hash_row a p ! nat (l - 1) else 0) = poly (take i a) mod p"
  proof (cases "l > 0")
    case True
    then have "nat (l - 1) = i - 1" "i - 1 < length a" "Suc (i - 1) = i"
      using ij by simp_all
    then show ?thesis
      using True prefix_hash_row_nth [OF g codes, where j = "i - 1"] by simp
  next
    case False
    then have "i = 0" using ij by simp
    then show ?thesis using False by simp
  qed
  have sub: "subMod (prefix_hash_row a p ! j) (poly (take i a) mod p) p
      = (31 ^ i * poly (substr a l r)) mod p"
    by (simp add: subMod_def hr mod_simps)
  have "query_val a p l r = ((31 ^ i * poly (substr a l r)) mod p * inverse_row p (length a) ! i) mod p"
    unfolding query_val_def hl mulMod_def
    using sub by (simp add: i_def j_def)
  also have "\<dots> = (poly (substr a l r) * ((inverse_row p (length a) ! i * 31 ^ i) mod p)) mod p"
    by (simp add: mod_simps ac_simps)
  also have "\<dots> = poly (substr a l r) mod p"
    using ij by (simp add: inverse_times_power [OF g])
  finally show ?thesis .
qed

lemma is_lower_code: "is_lower c \<Longrightarrow> 1 \<le> char_code c \<and> char_code c \<le> 26"
proof -
  assume l: "is_lower c"
  have e: "(of_char c :: int) = int (of_char c)"
    by (rule of_nat_of_char [symmetric])
  show ?thesis
    using l unfolding is_lower_def char_code_def char_val_def Let_def e by simp
qed

lemma lower_codes: "\<forall>c\<in>set a. is_lower c \<Longrightarrow> c \<in> set a \<Longrightarrow> 0 \<le> char_code c"
  using is_lower_code [of c] by fastforce

lemma query_val_range: "0 < p \<Longrightarrow> in_range (query_val a p l r) p"
  by (simp add: query_val_def mulMod_def in_range_def)

lemma substr_single:
  assumes "0 \<le> i" "i < int (length a)"
  shows "substr a i i = [a ! nat i]"
proof -
  have "nat i < length a" using assms by simp
  then have "take 1 (drop (nat i) a) = [a ! nat i]"
    by (simp add: take_Suc_conv_app_nth)
  then show ?thesis by (simp add: substr_def)
qed

lemma mod_in_range: "0 < p \<Longrightarrow> in_range (x mod p) p"
  by (simp add: in_range_def)

lemma rows_in_range:
  assumes g: "good_modulus p"
  shows "j \<le> len \<Longrightarrow> in_range (powers_row p len ! j) p"
    and "j \<le> len \<Longrightarrow> in_range (inverse_row p len ! j) p"
    and "(\<And>c. c \<in> set a \<Longrightarrow> 0 \<le> char_code c) \<Longrightarrow> k < length a
          \<Longrightarrow> in_range (prefix_hash_row a p ! k) p"
    and "in_range (query_val a p l r) p"
proof -
  have p: "1 < p" "p < 2 ^ 32" "0 < p" using g by (simp_all add: good_modulus_def)
  show "j \<le> len \<Longrightarrow> in_range (powers_row p len ! j) p"
    using p by (simp add: powers_row_nth mod_in_range)
  show "j \<le> len \<Longrightarrow> in_range (inverse_row p len ! j) p"
    using p by (simp add: inverse_row_nth [OF g] mod_in_range)
  show "(\<And>c. c \<in> set a \<Longrightarrow> 0 \<le> char_code c) \<Longrightarrow> k < length a
          \<Longrightarrow> in_range (prefix_hash_row a p ! k) p"
    using p by (simp add: prefix_hash_row_nth [OF g] mod_in_range)
  show "in_range (query_val a p l r) p"
    using p by (simp add: query_val_range)
qed

lemma char_code_sub: "char_val c - char_val CHR ''a'' + 1 = char_code c"
proof -
  have "char_val CHR ''a'' = 97" by (simp add: char_val_def)
  then show ?thesis by (simp add: char_code_def)
qed

lemma substringHashVec_frame: "substringHashVec h l r = Some (v, h') \<Longrightarrow> h' = h"
  by (auto simp: substringHashVec_def split: Option.bind_splits)

lemma substringHashPair_frame: "substringHashPair h l r = Some (q, h') \<Longrightarrow> h' = h"
  by (auto simp: substringHashPair_def split: Option.bind_splits)

section \<open>Properties of the hashing structure\<close>

text \<open>
  Claim C1. For the structure built from a string of lowercase letters (base 31, moduli
  1000000009 and 100000007) and index pairs \<open>(l1, r1)\<close>, \<open>(l2, r2)\<close> within bounds whose
  substrings are equal character for character, \<^verbatim>\<open>substringHashVec\<close> returns the same vector,
  one component per modulus, for both pairs, and \<^verbatim>\<open>substringHashPair\<close> the same pair. The
  instance for \<^verbatim>\<open>"abacaba"\<close>, \<open>(0, 2)\<close> and \<open>(4, 6)\<close> follows it.
\<close>

theorem equal_substrings_equal_hashes:
  assumes "\<forall>c\<in>set a. is_lower c"
    and "0 \<le> l1" "l1 \<le> r1" "r1 < int (length a)"
    and "0 \<le> l2" "l2 \<le> r2" "r2 < int (length a)"
    and "substr a l1 r1 = substr a l2 r2"
  shows "(\<exists>v. length v = length (hashPrimes (Hashing_ctor a))
            \<and> substringHashVec (Hashing_ctor a) l1 r1 = Some (v, Hashing_ctor a)
            \<and> substringHashVec (Hashing_ctor a) l2 r2 = Some (v, Hashing_ctor a))
       \<and> (\<exists>q. substringHashPair (Hashing_ctor a) l1 r1 = Some (q, Hashing_ctor a)
            \<and> substringHashPair (Hashing_ctor a) l2 r2 = Some (q, Hashing_ctor a))"
proof -
  have codes: "\<And>c. c \<in> set a \<Longrightarrow> 0 \<le> char_code c"
    using assms(1) by (rule lower_codes)
  have q: "query_val a p l1 r1 = query_val a p l2 r2" if "good_modulus p" for p
    using that codes assms by (simp add: query_val_poly)
  show ?thesis
    using assms q [OF good_P1] q [OF good_P2]
    by (simp add: substringHashVec_ctor substringHashPair_ctor rows_ctor)
qed

theorem equal_substrings_equal_hashes_witness:
  "substr ''abacaba'' 0 2 = substr ''abacaba'' 4 6
   \<and> substringHashPair (Hashing_ctor ''abacaba'') 0 2
       = substringHashPair (Hashing_ctor ''abacaba'') 4 6
   \<and> substringHashVec (Hashing_ctor ''abacaba'') 0 2
       = substringHashVec (Hashing_ctor ''abacaba'') 4 6
   \<and> substringHashPair (Hashing_ctor ''abacaba'') 0 2 \<noteq> None
   \<and> substringHashVec (Hashing_ctor ''abacaba'') 0 2 \<noteq> None"
proof -
  have h1: "\<forall>c\<in>set ''abacaba''. is_lower c"
    by (simp add: is_lower_def)
  have h2: "substr ''abacaba'' 0 2 = substr ''abacaba'' 4 6"
    by (simp add: substr_def)
  show ?thesis
    using h1 h2 equal_substrings_equal_hashes [OF h1, of 0 2 4 6] by auto
qed

text \<open>
  Claim C2. For every constructed structure and every query \<open>0 \<le> l \<le> r < n\<close>,
  \<^verbatim>\<open>substringHashPair(l, r)\<close> returns the pair of components 0 and 1 of the vector that
  \<^verbatim>\<open>substringHashVec(l, r)\<close> returns.
\<close>

theorem pair_is_vec:
  assumes "0 \<le> l" "l \<le> r" "r < int (length a)"
  shows "\<exists>v. substringHashVec (Hashing_ctor a) l r = Some (v, Hashing_ctor a)
           \<and> length v = 2
           \<and> substringHashPair (Hashing_ctor a) l r = Some ((v ! 0, v ! 1), Hashing_ctor a)"
  using assms by (simp add: substringHashVec_ctor substringHashPair_ctor)

theorem pair_is_vec_witness:
  "\<exists>v. substringHashVec (Hashing_ctor ''abacaba'') 1 4 = Some (v, Hashing_ctor ''abacaba'')
     \<and> length v = 2
     \<and> substringHashPair (Hashing_ctor ''abacaba'') 1 4
         = Some ((v ! 0, v ! 1), Hashing_ctor ''abacaba'')"
  using pair_is_vec [of 1 4 "''abacaba''"] by simp

text \<open>
  Claim C3. After construction, for each modulus index \<open>i\<close> and exponent \<open>j \<le> n\<close>,
  \<^verbatim>\<open>powersOfBase[i][j]\<close> is \<open>31 ^ j mod hashPrimes[i]\<close> and \<^verbatim>\<open>inversePowersOfBase[i][j]\<close> is its
  modular inverse: their product is 1 modulo \<^verbatim>\<open>hashPrimes[i]\<close>. Only the inverse at index
  \<open>n\<close> comes from the Fermat exponentiation; the lower ones come from multiplying downwards
  by the base.
\<close>

theorem powers_and_inverses:
  assumes "i < 2" "j \<le> length a"
  shows "powersOfBase (Hashing_ctor a) ! i ! j = 31 ^ j mod (hashPrimes (Hashing_ctor a) ! i)
       \<and> (inversePowersOfBase (Hashing_ctor a) ! i ! j * powersOfBase (Hashing_ctor a) ! i ! j)
            mod (hashPrimes (Hashing_ctor a) ! i) = 1"
proof -
  have pw: "powers_row p (length a) ! j = 31 ^ j mod p" if g: "good_modulus p" for p
    using g assms(2) by (intro powers_row_nth) (simp_all add: good_modulus_def)
  have iv: "(inverse_row p (length a) ! j * (31 ^ j mod p)) mod p = 1"
    if g: "good_modulus p" for p
  proof -
    have "(inverse_row p (length a) ! j * (31 ^ j mod p)) mod p
        = (inverse_row p (length a) ! j * 31 ^ j) mod p"
      by (simp add: mod_simps)
    then show ?thesis
      using inverse_times_power [OF g assms(2)] by simp
  qed
  from assms(1) consider "i = 0" | "i = 1" by linarith
  then show ?thesis
  proof cases
    case 1
    then show ?thesis by (simp add: rows_ctor pw [OF good_P1] iv [OF good_P1])
  next
    case 2
    then show ?thesis by (simp add: rows_ctor pw [OF good_P2] iv [OF good_P2])
  qed
qed

theorem powers_and_inverses_witness:
  "(1::nat) < 2 \<and> (3::nat) \<le> length ''abacaba''
   \<and> powersOfBase (Hashing_ctor ''abacaba'') ! 1 ! 3
       = 31 ^ 3 mod (hashPrimes (Hashing_ctor ''abacaba'') ! 1)
   \<and> (inversePowersOfBase (Hashing_ctor ''abacaba'') ! 1 ! 3
        * powersOfBase (Hashing_ctor ''abacaba'') ! 1 ! 3)
         mod (hashPrimes (Hashing_ctor ''abacaba'') ! 1) = 1"
proof -
  have h1: "(1::nat) < 2" by simp
  have h2: "(3::nat) \<le> length ''abacaba''" by simp
  show ?thesis
    using h1 h2 powers_and_inverses [OF h1 h2] by blast
qed

text \<open>
  Claim C4. For \<^verbatim>\<open>"abacaba"\<close> the hashes of the unequal substrings \<^verbatim>\<open>"abac"\<close> (0 to 3) and
  \<^verbatim>\<open>"caba"\<close> (3 to 6) differ, as pairs and as vectors: the first is 90397 under both moduli,
  the second 31747.
\<close>

theorem abacaba_no_false_positive:
  "map_option fst (substringHashPair (Hashing_ctor ''abacaba'') 0 3) = Some (90397, 90397)
   \<and> map_option fst (substringHashPair (Hashing_ctor ''abacaba'') 3 6) = Some (31747, 31747)
   \<and> map_option fst (substringHashVec (Hashing_ctor ''abacaba'') 0 3) = Some [90397, 90397]
   \<and> map_option fst (substringHashVec (Hashing_ctor ''abacaba'') 3 6) = Some [31747, 31747]
   \<and> substringHashPair (Hashing_ctor ''abacaba'') 0 3
       \<noteq> substringHashPair (Hashing_ctor ''abacaba'') 3 6
   \<and> substringHashVec (Hashing_ctor ''abacaba'') 0 3
       \<noteq> substringHashVec (Hashing_ctor ''abacaba'') 3 6"
proof -
  have codes: "\<And>c. c \<in> set ''abacaba'' \<Longrightarrow> 0 \<le> char_code c"
    by (auto simp: char_code_def char_val_def)
  have s03: "poly (substr ''abacaba'' 0 3) = 90397"
    by (simp add: substr_def char_code_def char_val_def)
  have s36: "poly (substr ''abacaba'' 3 6) = 31747"
    by (simp add: substr_def char_code_def char_val_def)
  have q03: "query_val ''abacaba'' p 0 3 = 90397 mod p" if "good_modulus p" for p
    using query_val_poly [where a = "''abacaba''" and l = 0 and r = 3, OF that codes] by (simp add: s03)
  have q36: "query_val ''abacaba'' p 3 6 = 31747 mod p" if "good_modulus p" for p
    using query_val_poly [where a = "''abacaba''" and l = 3 and r = 6, OF that codes] by (simp add: s36)
  have p03: "map_option fst (substringHashPair (Hashing_ctor ''abacaba'') 0 3) = Some (90397, 90397)"
    by (simp add: substringHashPair_ctor q03 [OF good_P1] q03 [OF good_P2])
  have p36: "map_option fst (substringHashPair (Hashing_ctor ''abacaba'') 3 6) = Some (31747, 31747)"
    by (simp add: substringHashPair_ctor q36 [OF good_P1] q36 [OF good_P2])
  have v03: "map_option fst (substringHashVec (Hashing_ctor ''abacaba'') 0 3) = Some [90397, 90397]"
    by (simp add: substringHashVec_ctor q03 [OF good_P1] q03 [OF good_P2])
  have v36: "map_option fst (substringHashVec (Hashing_ctor ''abacaba'') 3 6) = Some [31747, 31747]"
    by (simp add: substringHashVec_ctor q36 [OF good_P1] q36 [OF good_P2])
  have "substringHashPair (Hashing_ctor ''abacaba'') 0 3
       \<noteq> substringHashPair (Hashing_ctor ''abacaba'') 3 6"
    using p03 p36 by auto
  moreover have "substringHashVec (Hashing_ctor ''abacaba'') 0 3
       \<noteq> substringHashVec (Hashing_ctor ''abacaba'') 3 6"
    using v03 v36 by auto
  ultimately show ?thesis using p03 p36 v03 v36 by blast
qed

text \<open>
  Claim C5. For the structure built from a string of lowercase letters and an index
  \<open>0 \<le> i < n\<close>, every component of \<^verbatim>\<open>substringHashVec(i, i)\<close> is the code of the character,
  \<^verbatim>\<open>text[i] - 'a' + 1\<close>, with no power of the base left in it.
\<close>

theorem single_character_hash:
  assumes "\<forall>c\<in>set a. is_lower c" "0 \<le> i" "i < int (length a)"
  shows "substringHashVec (Hashing_ctor a) i i =
    Some (replicate (length (hashPrimes (Hashing_ctor a)))
            (char_val (a ! nat i) - char_val CHR ''a'' + 1), Hashing_ctor a)"
proof -
  have codes: "\<And>c. c \<in> set a \<Longrightarrow> 0 \<le> char_code c"
    using assms(1) by (rule lower_codes)
  have k: "nat i < length a" using assms by simp
  then have "is_lower (a ! nat i)" using assms(1) by simp
  then have c: "1 \<le> char_code (a ! nat i)" "char_code (a ! nat i) \<le> 26"
    using is_lower_code by simp_all
  have "char_val CHR ''a'' = 97" by (simp add: char_val_def)
  then have cc: "char_val (a ! nat i) - char_val CHR ''a'' + 1 = char_code (a ! nat i)"
    by (simp add: char_code_def)
  have q: "query_val a p i i = char_code (a ! nat i)" if "good_modulus p" "26 < p" for p
    using that codes assms c by (simp add: query_val_poly substr_single)
  show ?thesis
    using assms q [OF good_P1] q [OF good_P2]
    by (simp add: substringHashVec_ctor rows_ctor cc numeral_2_eq_2)
qed

theorem single_character_hash_witness:
  "is_lower (''abacaba'' ! 3)
   \<and> substringHashVec (Hashing_ctor ''abacaba'') 3 3 = Some ([3, 3], Hashing_ctor ''abacaba'')"
proof -
  have h1: "\<forall>c\<in>set ''abacaba''. is_lower c"
    by (simp add: is_lower_def)
  have h2: "(0::int) \<le> 3" by simp
  have h3: "(3::int) < int (length ''abacaba'')" by simp
  have len: "length (hashPrimes (Hashing_ctor ''abacaba'')) = 2"
    by (simp add: rows_ctor)
  have ch: "char_val (''abacaba'' ! nat 3) - char_val CHR ''a'' + 1 = 3"
    by (simp add: char_val_def)
  have rp: "replicate 2 (3::int) = [3, 3]"
    by (simp add: numeral_2_eq_2)
  have h4: "is_lower (''abacaba'' ! 3)"
    by (simp add: is_lower_def)
  show ?thesis
    using h4 single_character_hash [OF h1 h2 h3] unfolding len ch rp by blast
qed

text \<open>
  Claim C6, as stated: after construction of any structure, every stored entry of
  \<^verbatim>\<open>powersOfBase[i]\<close>, \<^verbatim>\<open>inversePowersOfBase[i]\<close> and \<^verbatim>\<open>hashValues[i]\<close> lies in
  \<open>[0, hashPrimes[i])\<close>, and so does every component of a valid query. It fails for
  \<^verbatim>\<open>hashValues\<close> on the string \<^verbatim>\<open>"A"\<close>: the code \<^verbatim>\<open>'A' - 'a' + 1\<close> is \<open>-31\<close>, the remainder of a
  negative product is negative, and the entry stored is \<open>-31\<close>.
\<close>

theorem stored_values_negative_counterexample:
  "hashValues (Hashing_ctor ''A'') ! 0 ! 0 = - 31
   \<and> \<not> in_range (hashValues (Hashing_ctor ''A'') ! 0 ! 0) (hashPrimes (Hashing_ctor ''A'') ! 0)"
proof -
  have pw: "powers_row 1000000009 (Suc 0) ! 0 = 1"
    using powers_row_nth [of 1000000009 0 "Suc 0"] by simp
  have c: "char_code CHR ''A'' = - 31"
    by (simp add: char_code_def char_val_def)
  have m: "ll_mul (- 31) 1 = - 31"
    by (simp add: ll_mul_def ll_wrap_id)
  have r: "ll_rem (- 31) 1000000009 = - 31"
    by (simp add: ll_rem_def)
  have a: "ll_add (- 31) 0 = - 31"
    by (simp add: ll_add_def ll_wrap_id)
  have "prefix_hash_row ''A'' 1000000009 ! 0 = - 31"
    by (simp add: prefix_hash_row_def prefix_step_def Let_def char_code_eq c pw m r a)
  then show ?thesis
    by (simp add: rows_ctor in_range_def)
qed

text \<open>
  Claim C6, amended. After construction from any string, every entry of
  \<^verbatim>\<open>powersOfBase[i]\<close> and \<^verbatim>\<open>inversePowersOfBase[i]\<close> (indices \<open>0\<close> to \<open>n\<close>) lies in
  \<open>[0, hashPrimes[i])\<close>, and every component of a valid \<^verbatim>\<open>substringHashVec\<close> or
  \<^verbatim>\<open>substringHashPair\<close> query lies in \<open>[0, hashPrimes[i])\<close>; every entry of \<^verbatim>\<open>hashValues[i]\<close>
  (indices \<open>0\<close> to \<open>n - 1\<close>) lies in \<open>[0, hashPrimes[i])\<close> when the code
  \<^verbatim>\<open>str[j] - 'a' + 1\<close> of every character is non-negative, as it is for lowercase letters.
\<close>

theorem stored_values_in_range:
  assumes "i < 2"
  shows "length (powersOfBase (Hashing_ctor a) ! i) = length a + 1
    \<and> length (inversePowersOfBase (Hashing_ctor a) ! i) = length a + 1
    \<and> length (hashValues (Hashing_ctor a) ! i) = length a
    \<and> (j \<le> length a \<longrightarrow>
         in_range (powersOfBase (Hashing_ctor a) ! i ! j) (hashPrimes (Hashing_ctor a) ! i)
       \<and> in_range (inversePowersOfBase (Hashing_ctor a) ! i ! j) (hashPrimes (Hashing_ctor a) ! i))
    \<and> ((\<forall>c\<in>set a. 0 \<le> char_val c - char_val CHR ''a'' + 1) \<and> k < length a \<longrightarrow>
         in_range (hashValues (Hashing_ctor a) ! i ! k) (hashPrimes (Hashing_ctor a) ! i))
    \<and> (0 \<le> l \<and> l \<le> r \<and> r < int (length a) \<longrightarrow>
         (\<exists>v. substringHashVec (Hashing_ctor a) l r = Some (v, Hashing_ctor a)
              \<and> length v = 2
              \<and> in_range (v ! i) (hashPrimes (Hashing_ctor a) ! i))
       \<and> (\<exists>x y. substringHashPair (Hashing_ctor a) l r = Some ((x, y), Hashing_ctor a)
              \<and> in_range x (hashPrimes (Hashing_ctor a) ! 0)
              \<and> in_range y (hashPrimes (Hashing_ctor a) ! 1)))"
proof -
  note r1 = rows_in_range [OF good_P1]
  note r2 = rows_in_range [OF good_P2]
  from assms consider "i = 0" | "i = 1" by linarith
  then show ?thesis
  proof cases
    case 1
    then show ?thesis
      by (simp add: rows_ctor substringHashVec_ctor substringHashPair_ctor char_code_sub r1 r2)
  next
    case 2
    then show ?thesis
      by (simp add: rows_ctor substringHashVec_ctor substringHashPair_ctor char_code_sub r1 r2)
  qed
qed

theorem stored_values_in_range_witness:
  "in_range (powersOfBase (Hashing_ctor ''abacaba'') ! 1 ! 3) (hashPrimes (Hashing_ctor ''abacaba'') ! 1)
   \<and> in_range (inversePowersOfBase (Hashing_ctor ''abacaba'') ! 1 ! 3) (hashPrimes (Hashing_ctor ''abacaba'') ! 1)
   \<and> in_range (hashValues (Hashing_ctor ''abacaba'') ! 1 ! 2) (hashPrimes (Hashing_ctor ''abacaba'') ! 1)
   \<and> (\<exists>v. substringHashVec (Hashing_ctor ''abacaba'') 1 4 = Some (v, Hashing_ctor ''abacaba'')
         \<and> length v = 2
         \<and> in_range (v ! 1) (hashPrimes (Hashing_ctor ''abacaba'') ! 1))
   \<and> (\<exists>x y. substringHashPair (Hashing_ctor ''abacaba'') 1 4 = Some ((x, y), Hashing_ctor ''abacaba'')
         \<and> in_range x (hashPrimes (Hashing_ctor ''abacaba'') ! 0)
         \<and> in_range y (hashPrimes (Hashing_ctor ''abacaba'') ! 1))"
proof -
  have h1: "(1::nat) < 2" by simp
  have h2: "(3::nat) \<le> length ''abacaba''" by simp
  have h3: "(\<forall>c\<in>set ''abacaba''. 0 \<le> char_val c - char_val CHR ''a'' + 1) \<and> (2::nat) < length ''abacaba''"
    by (simp add: char_val_def)
  have h4: "(0::int) \<le> 1 \<and> (1::int) \<le> 4 \<and> (4::int) < int (length ''abacaba'')" by simp
  show ?thesis
    using h2 h3 h4 stored_values_in_range [OF h1, of "''abacaba''" 3 2 1 4] by blast
qed

text \<open>
  Claim C7. Neither query modifies the structure: for every constructed structure and every
  query \<open>0 \<le> l \<le> r < n\<close>, both queries return, and the structure after the call is the one
  before it, field by field. (Lemmas \<open>substringHashVec_frame\<close> and \<open>substringHashPair_frame\<close>
  say the same of any structure on which a query returns.)
\<close>

theorem queries_read_only:
  assumes "0 \<le> l" "l \<le> r" "r < int (length a)"
  shows "(\<exists>v. substringHashVec (Hashing_ctor a) l r = Some (v, Hashing_ctor a))
       \<and> (\<exists>q. substringHashPair (Hashing_ctor a) l r = Some (q, Hashing_ctor a))"
  using assms by (simp add: substringHashVec_ctor substringHashPair_ctor)

theorem queries_read_only_witness:
  "(\<exists>v. substringHashVec (Hashing_ctor ''abacaba'') 2 5 = Some (v, Hashing_ctor ''abacaba''))
   \<and> (\<exists>q. substringHashPair (Hashing_ctor ''abacaba'') 2 5 = Some (q, Hashing_ctor ''abacaba''))"
  using queries_read_only [of 2 5 "''abacaba''"] by simp

section \<open>The hash functors\<close>

lemma xor_swap:
  fixes a b c d :: u64
  assumes e: "a XOR b = c XOR d"
  shows "a XOR c = b XOR d"
proof -
  have "a XOR c = (a XOR b) XOR (b XOR c)" by (simp add: ac_simps)
  also have "\<dots> = (c XOR d) XOR (b XOR c)" by (simp only: e)
  also have "\<dots> = b XOR d" by (simp add: ac_simps)
  finally show ?thesis .
qed

lemma xor_zero_eq: "(x::u64) XOR y = 0 \<Longrightarrow> x = y"
  using xor_swap [of x y 0 0] by simp

lemma xorshift_fixed_zero:
  fixes d :: u64
  assumes k: "22 \<le> k" and d: "d = drop_bit k d"
  shows "d = 0"
proof -
  have "d = drop_bit k (drop_bit k (drop_bit k d))"
    using d by simp
  also have "\<dots> = drop_bit (k + k + k) d"
    by (simp add: add.assoc)
  also have "\<dots> = 0"
    using k by (simp add: drop_bit_word_beyond)
  finally show ?thesis .
qed

lemma xorshift_inj:
  fixes x y :: u64
  assumes k: "22 \<le> k" and e: "x XOR drop_bit k x = y XOR drop_bit k y"
  shows "x = y"
proof -
  have "x XOR y = drop_bit k x XOR drop_bit k y"
    by (rule xor_swap [OF e])
  also have "\<dots> = drop_bit k (x XOR y)"
    by simp
  finally have "x XOR y = 0"
    by (rule xorshift_fixed_zero [OF k])
  then show ?thesis
    by (rule xor_zero_eq)
qed

lemma mul_c1_inj:
  fixes x y :: u64
  assumes "x * 0xbf58476d1ce4e5b9 = y * 0xbf58476d1ce4e5b9"
  shows "x = y"
proof -
  have inv: "(0xbf58476d1ce4e5b9 :: u64) * 0x96de1b173f119089 = 1"
    by simp
  have "x * (0xbf58476d1ce4e5b9 * 0x96de1b173f119089) = y * (0xbf58476d1ce4e5b9 * 0x96de1b173f119089)"
    using assms by (simp only: mult.assoc [symmetric])
  then show ?thesis
    by (simp only: inv mult_1_right)
qed

lemma mul_c2_inj:
  fixes x y :: u64
  assumes "x * 0x94d049bb133111eb = y * 0x94d049bb133111eb"
  shows "x = y"
proof -
  have inv: "(0x94d049bb133111eb :: u64) * 0x319642b2d24d8ec3 = 1"
    by simp
  have "x * (0x94d049bb133111eb * 0x319642b2d24d8ec3) = y * (0x94d049bb133111eb * 0x319642b2d24d8ec3)"
    using assms by (simp only: mult.assoc [symmetric])
  then show ?thesis
    by (simp only: inv mult_1_right)
qed

lemma splitmix64_inj: "splitmix64 x = splitmix64 y \<Longrightarrow> x = y"
proof -
  assume e: "splitmix64 x = splitmix64 y"
  define x1 where "x1 = x + 0x9e3779b97f4a7c15"
  define y1 where "y1 = y + 0x9e3779b97f4a7c15"
  define x2 where "x2 = (x1 XOR drop_bit 30 x1) * 0xbf58476d1ce4e5b9"
  define y2 where "y2 = (y1 XOR drop_bit 30 y1) * 0xbf58476d1ce4e5b9"
  define x3 where "x3 = (x2 XOR drop_bit 27 x2) * 0x94d049bb133111eb"
  define y3 where "y3 = (y2 XOR drop_bit 27 y2) * 0x94d049bb133111eb"
  have "x3 XOR drop_bit 31 x3 = y3 XOR drop_bit 31 y3"
    using e by (simp add: splitmix64_def Let_def x1_def x2_def x3_def y1_def y2_def y3_def)
  then have "x3 = y3" by (rule xorshift_inj [rotated]) simp
  then have "x2 XOR drop_bit 27 x2 = y2 XOR drop_bit 27 y2"
    unfolding x3_def y3_def by (rule mul_c2_inj)
  then have "x2 = y2" by (rule xorshift_inj [rotated]) simp
  then have "x1 XOR drop_bit 30 x1 = y1 XOR drop_bit 30 y1"
    unfolding x2_def y2_def by (rule mul_c1_inj)
  then have "x1 = y1" by (rule xorshift_inj [rotated]) simp
  then show "x = y" by (simp add: x1_def y1_def)
qed

lemma custom_hash_inj: "custom_hash s x = custom_hash s y \<Longrightarrow> x = y"
  by (auto simp: custom_hash_def dest: splitmix64_inj)

lemma splitmix64_bij: "bij splitmix64"
proof -
  have "inj splitmix64" by (rule injI) (rule splitmix64_inj)
  then show ?thesis by (simp add: bij_def finite_UNIV_inj_surj)
qed

lemma shl1_fixed_zero:
  fixes d :: u64
  assumes d: "d = push_bit 1 d"
  shows "d = 0"
proof -
  have "\<not> bit d n" for n
  proof (induction n)
    case 0
    have "\<not> bit (push_bit 1 d) 0" by (simp only: bit_push_bit_iff) simp
    then show ?case using d by simp
  next
    case (Suc n)
    have "bit (push_bit 1 d) (Suc n) \<longrightarrow> bit d n" by (simp only: bit_push_bit_iff) simp
    with Suc show ?case by (subst d) blast
  qed
  then show ?thesis by (simp add: bit_eq_iff)
qed

text \<open>
  Claim C8. For every value of the seed and all 64-bit \<open>a\<close>, \<open>b\<close> with \<open>a \<noteq> b\<close>, the pair
  functor separates \<open>(a, b)\<close> from \<open>(b, a)\<close>, where the hash of a pair is
  \<open>custom_hash first XOR (custom_hash second << 1)\<close>.
\<close>

theorem pair_hash_order_sensitive:
  assumes "a \<noteq> b"
  shows "pair_hash s (a, b) \<noteq> pair_hash s (b, a)"
proof
  assume e: "pair_hash s (a, b) = pair_hash s (b, a)"
  define x where "x = custom_hash s a"
  define y where "y = custom_hash s b"
  have "x XOR push_bit 1 y = y XOR push_bit 1 x"
    using e by (simp add: pair_hash_def x_def y_def)
  then have "x XOR y = push_bit 1 y XOR push_bit 1 x"
    by (rule xor_swap)
  also have "\<dots> = push_bit 1 (x XOR y)"
    by (simp only: push_bit_xor xor.commute)
  finally have "x XOR y = 0" by (rule shl1_fixed_zero)
  then have "x = y" by (rule xor_zero_eq)
  then have "a = b" unfolding x_def y_def by (rule custom_hash_inj)
  with assms show False by simp
qed

theorem pair_hash_order_sensitive_witness:
  "(1 :: u64) \<noteq> 2 \<and> pair_hash 5 (1, 2) \<noteq> pair_hash 5 (2, 1)"
  using pair_hash_order_sensitive [of 1 2 5] by simp

text \<open>
  Claim C9. For every value of the seed, \<open>vector_hash\<close> of the empty vector is 0, and of a
  one-element vector \<open>[x]\<close> it is \<open>custom_hash x + 0x9e3779b9\<close> in 64-bit wrap-around
  arithmetic.
\<close>

theorem vector_hash_empty_single:
  "vector_hash s [] = 0 \<and> vector_hash s [x] = custom_hash s x + 0x9e3779b9"
  by (simp add: vector_hash_def)

text \<open>
  Claim C10. For every value of the seed, \<open>custom_hash\<close> is injective on 64-bit keys:
  distinct keys have distinct hashes (\<open>splitmix64\<close> is a bijection on 64-bit words, lemma
  \<open>splitmix64_bij\<close>, and adding the seed is one too).
\<close>

theorem custom_hash_injective:
  assumes "x \<noteq> y"
  shows "custom_hash s x \<noteq> custom_hash s y"
  using assms custom_hash_inj [of s x y] by blast

theorem custom_hash_injective_witness:
  "(3 :: u64) \<noteq> 4 \<and> custom_hash 7 3 \<noteq> custom_hash 7 4"
  using custom_hash_injective [of 3 4 7] by simp

end
